theory Spec2Isabelle
  imports Main "HOL-Library.Mapping" "HOL-Library.AList_Mapping"
begin

section \<open>Python values\<close>

text \<open>
  The values that flow through the cache and the coders. Keys must be hashable; the
  constructors below are the hashable values the development needs. \<open>PyObject n\<close> is a
  plain instance of \<open>object\<close> with identity \<open>n\<close>.
\<close>

datatype pyval = PyNone | PyInt int | PyStr string | PyBytes string | PyObject nat

datatype error = KeyError pyval | TypeError

section \<open>ring.func.lru_cache\<close>

text \<open>\<open>SENTINEL = object()\<close>: the unique object used to signal cache misses.\<close>

definition SENTINEL :: pyval where
  "SENTINEL = PyObject 0"

text \<open>
  A link is the Python list \<open>[PREV, NEXT, KEY, RESULT]\<close>. Links are mutable and shared,
  so they live in an explicit store and refer to each other by address.
\<close>

type_synonym addr = nat

record link =
  PREV :: addr
  NEXT :: addr
  KEY :: pyval
  RESULT :: pyval

text \<open>
  The closure of \<open>LruCache.__init__\<close>: the dictionary \<open>cache\<close>, \<open>self.root\<close>, the list
  \<open>stat = [FULL, HITS, MISSES]\<close> and \<open>maxsize\<close>; \<open>heap\<close> is the store of links and
  \<open>alloc\<close> the first address no link has been created at.
\<close>

record lru =
  cache :: "(pyval, addr) mapping"
  heap :: "addr \<Rightarrow> link"
  alloc :: addr
  root :: addr
  FULL :: bool
  HITS :: int
  MISSES :: int
  maxsize :: int

definition LruCache :: "int \<Rightarrow> lru" where
  "LruCache m =
     \<lparr>cache = Mapping.empty,
      heap = (\<lambda>_. \<lparr>PREV = 0, NEXT = 0, KEY = PyNone, RESULT = PyNone\<rparr>),
      alloc = 1, root = 0, FULL = False, HITS = 0, MISSES = 0, maxsize = m\<rparr>"

definition cache_len :: "lru \<Rightarrow> int" where
  "cache_len s = int (Mapping.size (cache s))"

text \<open>
  Item assignment on a link in the store: \<open>link[PREV] = v\<close>, \<open>link[NEXT] = v\<close>,
  \<open>link[KEY] = v\<close> and \<open>link[RESULT] = v\<close> (also written \<open>link[-1] = v\<close>).
\<close>

definition set_PREV :: "(addr \<Rightarrow> link) \<Rightarrow> addr \<Rightarrow> addr \<Rightarrow> (addr \<Rightarrow> link)" where
  "set_PREV h a v = h(a := (h a)\<lparr>PREV := v\<rparr>)"

definition set_NEXT :: "(addr \<Rightarrow> link) \<Rightarrow> addr \<Rightarrow> addr \<Rightarrow> (addr \<Rightarrow> link)" where
  "set_NEXT h a v = h(a := (h a)\<lparr>NEXT := v\<rparr>)"

definition set_KEY :: "(addr \<Rightarrow> link) \<Rightarrow> addr \<Rightarrow> pyval \<Rightarrow> (addr \<Rightarrow> link)" where
  "set_KEY h a v = h(a := (h a)\<lparr>KEY := v\<rparr>)"

definition set_RESULT :: "(addr \<Rightarrow> link) \<Rightarrow> addr \<Rightarrow> pyval \<Rightarrow> (addr \<Rightarrow> link)" where
  "set_RESULT h a v = h(a := (h a)\<lparr>RESULT := v\<rparr>)"

definition get :: "pyval \<Rightarrow> lru \<Rightarrow> pyval \<times> lru" where
  "get key s =
     (case Mapping.lookup (cache s) key of
        Some link \<Rightarrow>
          (let rt = root s;
               h = heap s;
               link_prev = PREV (h link);
               link_next = NEXT (h link);
               result = RESULT (h link);
               h = set_NEXT h link_prev link_next;
               h = set_PREV h link_next link_prev;
               last = PREV (h rt);
               h = set_NEXT h last link;
               h = set_PREV h rt link;
               h = set_PREV h link last;
               h = set_NEXT h link rt
           in (result, s\<lparr>heap := h, HITS := HITS s + 1\<rparr>))
      | None \<Rightarrow> (SENTINEL, s\<lparr>MISSES := MISSES s + 1\<rparr>))"

text \<open>\<open>del cache[key]\<close> raises \<open>KeyError\<close> on a missing key, before \<open>stat[FULL]\<close> is written.\<close>

definition delete :: "pyval \<Rightarrow> lru \<Rightarrow> (error + unit) \<times> lru" where
  "delete key s =
     (if Mapping.lookup (cache s) key = None then (Inl (KeyError key), s)
      else (Inr (), s\<lparr>cache := Mapping.delete key (cache s), FULL := False\<rparr>))"

text \<open>
  In the branch that reuses the old root, every write before \<open>del cache[oldkey]\<close> has
  happened when that statement raises.
\<close>

definition set_lru :: "pyval \<Rightarrow> pyval \<Rightarrow> lru \<Rightarrow> (error + unit) \<times> lru" where
  "set_lru key result s =
     (case Mapping.lookup (cache s) key of
        Some link \<Rightarrow>
          (Inr (), s\<lparr>heap := set_RESULT (heap s) link result\<rparr>)
      | None \<Rightarrow>
          if FULL s then
            (let oldroot = root s;
                 h = heap s;
                 h = set_KEY h oldroot key;
                 h = set_RESULT h oldroot result;
                 rt = NEXT (h oldroot);
                 oldkey = KEY (h rt);
                 h = set_RESULT (set_KEY h rt PyNone) rt PyNone;
                 s = s\<lparr>heap := h, root := rt\<rparr>
             in if Mapping.lookup (cache s) oldkey = None then (Inl (KeyError oldkey), s)
                else (Inr (), s\<lparr>cache := Mapping.update key oldroot (Mapping.delete oldkey (cache s))\<rparr>))
          else
            (let rt = root s;
                 h = heap s;
                 last = PREV (h rt);
                 link = alloc s;
                 h = h(link := \<lparr>PREV = last, NEXT = rt, KEY = key, RESULT = result\<rparr>);
                 h = set_NEXT h last link;
                 h = set_PREV h rt link;
                 s = s\<lparr>cache := Mapping.update key link (cache s), heap := h, alloc := link + 1\<rparr>
             in (Inr (), s\<lparr>FULL := (cache_len s \<ge> maxsize s)\<rparr>)))"

definition cache_info :: "lru \<Rightarrow> int \<times> int \<times> int \<times> int" where
  "cache_info s = (HITS s, MISSES s, maxsize s, cache_len s)"

definition clear :: "lru \<Rightarrow> lru" where
  "clear s =
     s\<lparr>cache := Mapping.empty,
       heap := (heap s)(root s := \<lparr>PREV = root s, NEXT = root s, KEY = PyNone, RESULT = PyNone\<rparr>),
       FULL := False, HITS := 0, MISSES := 0\<rparr>"

subsection \<open>Sequences of calls\<close>

text \<open>
  A caller's sequence of calls on one engine. An exception ends the call that raised it,
  not the engine: the next call runs on the store the failed call left behind.
\<close>

datatype op = Get pyval | Set pyval pyval | Delete pyval | Clear

fun step :: "op \<Rightarrow> lru \<Rightarrow> (error + pyval) \<times> lru" where
  "step (Get k) s = (Inr (fst (get k s)), snd (get k s))"
| "step (Set k v) s = (map_sum id (\<lambda>_. PyNone) (fst (set_lru k v s)), snd (set_lru k v s))"
| "step (Delete k) s = (map_sum id (\<lambda>_. PyNone) (fst (delete k s)), snd (delete k s))"
| "step Clear s = (Inr PyNone, clear s)"

fun run :: "op list \<Rightarrow> lru \<Rightarrow> lru" where
  "run [] s = s"
| "run (c # cs) s = run cs (snd (step c s))"

section \<open>ring.coder\<close>

text \<open>
  The Python objects \<open>coderize\<close> can be handed, by the first test of the source they
  meet. \<open>Coder_obj c\<close> is an instance of \<open>Coder\<close>: a \<open>CoderTuple\<close> (the named tuple
  registered as a virtual subclass) or an instance of a class derived from \<open>Coder\<close>,
  with its \<open>encode\<close> and \<open>decode\<close>. \<open>Function f\<close> is a function, modelled by what it
  computes on values. \<open>Str_obj s d\<close> is a \<open>str\<close> with its \<open>decode\<close> attribute, if it has
  one (a Python 2 \<open>str\<close>, or an instance of a subclass of \<open>str\<close> that defines it).
  \<open>Tuple_obj items\<close> is a plain tuple; its items are any objects, since the source does
  not inspect them. \<open>Other_obj e d\<close> is any other object, with its \<open>encode\<close> and
  \<open>decode\<close> attributes, if it has them.
\<close>

type_synonym callable = "pyval \<Rightarrow> pyval"

datatype coder =
  CoderTuple (encode: pyobj) (decode: pyobj)
| Coder_subclass (encode: pyobj) (decode: pyobj)
and pyobj =
  Coder_obj coder
| Function callable
| Str_obj string "pyobj option"
| Tuple_obj "pyobj list"
| Other_obj "pyobj option" "pyobj option"

fun isinstance_Coder :: "pyobj \<Rightarrow> bool" where
  "isinstance_Coder (Coder_obj _) = True"
| "isinstance_Coder _ = False"

fun isinstance_str :: "pyobj \<Rightarrow> bool" where
  "isinstance_str (Str_obj _ _) = True"
| "isinstance_str _ = False"

fun isinstance_tuple :: "pyobj \<Rightarrow> bool" where
  "isinstance_tuple (Tuple_obj _) = True"
| "isinstance_tuple (Coder_obj (CoderTuple _ _)) = True"
| "isinstance_tuple _ = False"

text \<open>
  \<open>hasattr(raw_coder, 'encode')\<close> and \<open>hasattr(raw_coder, 'decode')\<close>. Every \<open>str\<close> has
  \<open>encode\<close>; a plain tuple and a function have neither attribute.
\<close>

fun hasattr_encode :: "pyobj \<Rightarrow> bool" where
  "hasattr_encode (Coder_obj _) = True"
| "hasattr_encode (Function _) = False"
| "hasattr_encode (Str_obj _ _) = True"
| "hasattr_encode (Tuple_obj _) = False"
| "hasattr_encode (Other_obj e _) = (e \<noteq> None)"

fun hasattr_decode :: "pyobj \<Rightarrow> bool" where
  "hasattr_decode (Coder_obj _) = True"
| "hasattr_decode (Function _) = False"
| "hasattr_decode (Str_obj _ d) = (d \<noteq> None)"
| "hasattr_decode (Tuple_obj _) = False"
| "hasattr_decode (Other_obj _ d) = (d \<noteq> None)"

text \<open>\<open>CoderTuple(*raw_coder)\<close>: the named tuple takes exactly two fields, of any kind.\<close>

fun CoderTuple_call :: "pyobj list \<Rightarrow> error + coder" where
  "CoderTuple_call [e, d] = Inr (CoderTuple e d)"
| "CoderTuple_call _ = Inl TypeError"

text \<open>The equations follow the order of the tests in the source.\<close>

fun coderize :: "pyobj \<Rightarrow> error + coder" where
  "coderize (Coder_obj c) = Inr c"
| "coderize (Str_obj s d) = Inl TypeError"
| "coderize (Tuple_obj items) = CoderTuple_call items"
| "coderize (Other_obj (Some e) (Some d)) = Inr (CoderTuple e d)"
| "coderize (Other_obj _ _) = Inl TypeError"
| "coderize (Function f) = Inl TypeError"

text \<open>
  The name handed to \<open>register\<close> is any object; \<open>self.coders[coder_name] = coder\<close>
  raises \<open>TypeError\<close> when it is unhashable (a list, for one).
\<close>

datatype name_arg = Hashable pyval | Unhashable

record Registry =
  coders :: "(pyval, coder) mapping"

definition Registry_init :: Registry where
  "Registry_init = \<lparr>coders = Mapping.empty\<rparr>"

definition Registry_register :: "name_arg \<Rightarrow> pyobj \<Rightarrow> Registry \<Rightarrow> (error + unit) \<times> Registry" where
  "Registry_register coder_name raw_coder self =
     (case coderize raw_coder of
        Inl e \<Rightarrow> (Inl e, self)
      | Inr coder \<Rightarrow>
          (case coder_name of
             Unhashable \<Rightarrow> (Inl TypeError, self)
           | Hashable n \<Rightarrow> (Inr (), self\<lparr>coders := Mapping.update n coder (coders self)\<rparr>)))"

text \<open>\<open>get\<close>, for a hashable name.\<close>

definition Registry_get :: "pyval \<Rightarrow> Registry \<Rightarrow> coder option" where
  "Registry_get coder_name self = Mapping.lookup (coders self) coder_name"

definition bypass :: callable where
  "bypass x = x"

text \<open>
  The library functions behind \<open>JsonCoder\<close> and the pickle entry (\<open>json_mod\<close>,
  \<open>pickle_mod\<close>, UTF-8 encoding and decoding) are not part of the repository: they are
  parameters.
\<close>

record extern =
  json_dumps :: callable
  json_loads :: callable
  str_encode_utf8 :: callable
  bytes_decode_utf8 :: callable
  pickle_dumps :: callable
  pickle_loads :: callable

definition JsonCoder_encode :: "extern \<Rightarrow> callable" where
  "JsonCoder_encode X data = str_encode_utf8 X (json_dumps X data)"

definition JsonCoder_decode :: "extern \<Rightarrow> callable" where
  "JsonCoder_decode X binary = json_loads X (bytes_decode_utf8 X binary)"

definition JsonCoder :: "extern \<Rightarrow> coder" where
  "JsonCoder X = Coder_subclass (Function (JsonCoder_encode X)) (Function (JsonCoder_decode X))"

text \<open>The module-level registry and the three \<open>register\<close> calls that populate it.\<close>

definition registry :: "extern \<Rightarrow> error + Registry" where
  "registry X =
     (case Registry_register (Hashable PyNone) (Tuple_obj [Function bypass, Function bypass])
             Registry_init of
        (Inl e, _) \<Rightarrow> Inl e
      | (Inr _, r) \<Rightarrow>
     (case Registry_register (Hashable (PyStr ''json'')) (Coder_obj (JsonCoder X)) r of
        (Inl e, _) \<Rightarrow> Inl e
      | (Inr _, r) \<Rightarrow>
     (case Registry_register (Hashable (PyStr ''pickle''))
             (Tuple_obj [Function (pickle_dumps X), Function (pickle_loads X)]) r of
        (Inl e, _) \<Rightarrow> Inl e
      | (Inr _, r) \<Rightarrow> Inr r)))"

section \<open>Auxiliary definitions\<close>


text \<open>
  The capacity invariant: the key map is finite, holds at most \<open>maxsize\<close> keys, and
  fewer while \<open>stat[FULL]\<close> is unset.
\<close>

definition inv_cap :: "lru \<Rightarrow> bool" where
  "inv_cap s \<longleftrightarrow> finite (Mapping.keys (cache s)) \<and> cache_len s \<le> maxsize s \<and> (\<not> FULL s \<longrightarrow> cache_len s < maxsize s)"

text \<open>
  What every sequence of calls keeps, \<open>delete\<close> and failed calls included: the root and
  the links the key map points to have been created, following \<open>NEXT\<close> stays among the
  created links, and the key map sends a key to a link other than the root that carries
  this key. \<open>inv_vals s m\<close>: the link of a key holds the value \<open>m\<close> gives for the key.
\<close>

definition inv_cache :: "lru \<Rightarrow> bool" where
  "inv_cache s \<longleftrightarrow>
     root s < alloc s \<and>
     (\<forall>a<alloc s. NEXT (heap s a) < alloc s) \<and>
     (\<forall>k l. Mapping.lookup (cache s) k = Some l \<longrightarrow> l < alloc s \<and> l \<noteq> root s \<and> KEY (heap s l) = k)"


text \<open>
  The circular doubly linked ordering. \<open>adj h a b\<close>: in the store \<open>h\<close>, \<open>b\<close> is
  the \<open>NEXT\<close> of \<open>a\<close> and \<open>a\<close> the \<open>PREV\<close> of \<open>b\<close>. \<open>ring s ns\<close>: starting at
  the root and following \<open>NEXT\<close>, one meets the links \<open>ns\<close>, from the least to the most
  recently used, and comes back to the root; the links are distinct and created; the key
  map sends a key to a link exactly when the link is among \<open>ns\<close> and carries the key;
  and \<open>stat[FULL]\<close> is set only when there is a link.
\<close>

definition adj :: "(addr \<Rightarrow> link) \<Rightarrow> addr \<Rightarrow> addr \<Rightarrow> bool" where
  "adj h a b \<longleftrightarrow> NEXT (h a) = b \<and> PREV (h b) = a"

definition ring :: "lru \<Rightarrow> addr list \<Rightarrow> bool" where
  "ring s ns \<longleftrightarrow>
     successively (adj (heap s)) (root s # ns @ [root s]) \<and>
     distinct (root s # ns) \<and>
     (\<forall>a\<in>set (root s # ns). a < alloc s) \<and>
     (\<forall>k l. Mapping.lookup (cache s) k = Some l \<longleftrightarrow> l \<in> set ns \<and> KEY (heap s l) = k) \<and>
     (FULL s \<longrightarrow> ns \<noteq> [])"

text \<open>
  The recency ordering alone, kept by every call, \<open>delete\<close> and failed calls included:
  \<open>lru_order s ns\<close> says that \<open>ns\<close> are the links met from the root along \<open>NEXT\<close>,
  from the least to the most recently used, back to the root, distinct and created, and
  that every link of the key map is among them and carries its key.
\<close>

definition lru_order :: "lru \<Rightarrow> addr list \<Rightarrow> bool" where
  "lru_order s ns \<longleftrightarrow>
     successively (adj (heap s)) (root s # ns @ [root s]) \<and>
     distinct (root s # ns) \<and>
     (\<forall>a\<in>set (root s # ns). a < alloc s) \<and>
     (\<forall>k l. Mapping.lookup (cache s) k = Some l \<longrightarrow> l \<in> set ns \<and> KEY (heap s l) = k)"

section \<open>Invariants of the LRU cache\<close>

lemma lookup_delete': "Mapping.lookup (Mapping.delete k m) k' = (if k = k' then None else Mapping.lookup m k')"
  by simp

lemma in_keys_lookup: "k \<in> Mapping.keys m \<longleftrightarrow> Mapping.lookup m k \<noteq> None"
  by (simp add: keys_dom_lookup dom_def)

lemma size_pos: "finite (Mapping.keys m) \<Longrightarrow> Mapping.lookup m k = Some y \<Longrightarrow> 0 < Mapping.size m"
proof -
  assume f: "finite (Mapping.keys m)" and l: "Mapping.lookup m k = Some y"
  from l have "k \<in> Mapping.keys m" by (simp add: in_keys_lookup)
  with f show ?thesis unfolding Mapping.size_def by (auto simp: card_gt_0_iff)
qed

lemma set_PREV_simps [simp]:
  "PREV (set_PREV h a v b) = (if b = a then v else PREV (h b))"
  "NEXT (set_PREV h a v b) = NEXT (h b)"
  "KEY (set_PREV h a v b) = KEY (h b)"
  "RESULT (set_PREV h a v b) = RESULT (h b)"
  by (simp_all add: set_PREV_def)

lemma set_NEXT_simps [simp]:
  "PREV (set_NEXT h a v b) = PREV (h b)"
  "NEXT (set_NEXT h a v b) = (if b = a then v else NEXT (h b))"
  "KEY (set_NEXT h a v b) = KEY (h b)"
  "RESULT (set_NEXT h a v b) = RESULT (h b)"
  by (simp_all add: set_NEXT_def)

lemma set_KEY_simps [simp]:
  "PREV (set_KEY h a v b) = PREV (h b)"
  "NEXT (set_KEY h a v b) = NEXT (h b)"
  "KEY (set_KEY h a v b) = (if b = a then v else KEY (h b))"
  "RESULT (set_KEY h a v b) = RESULT (h b)"
  by (simp_all add: set_KEY_def)

lemma set_RESULT_simps [simp]:
  "PREV (set_RESULT h a v b) = PREV (h b)"
  "NEXT (set_RESULT h a v b) = NEXT (h b)"
  "KEY (set_RESULT h a v b) = KEY (h b)"
  "RESULT (set_RESULT h a v b) = (if b = a then v else RESULT (h b))"
  by (simp_all add: set_RESULT_def)



lemma inv_cap_init: "0 < m \<Longrightarrow> inv_cap (LruCache m)"
  by (simp add: inv_cap_def LruCache_def cache_len_def)

lemma maxsize_get: "maxsize (snd (get k s)) = maxsize s"
  by (simp add: get_def Let_def split: option.splits)
lemma maxsize_set: "maxsize (snd (set_lru k v s)) = maxsize s"
  by (simp add: set_lru_def Let_def split: option.splits)
lemma maxsize_delete: "maxsize (snd (delete k s)) = maxsize s"
  by (simp add: delete_def)
lemma maxsize_clear: "maxsize (clear s) = maxsize s"
  by (simp add: clear_def)

lemma inv_cap_get: "inv_cap s \<Longrightarrow> inv_cap (snd (get k s))"
  by (simp add: inv_cap_def get_def Let_def cache_len_def split: option.splits)

lemma inv_cap_clear: "0 < maxsize s \<Longrightarrow> inv_cap (clear s)"
  by (simp add: inv_cap_def clear_def cache_len_def)

lemma inv_cap_delete: "inv_cap s \<Longrightarrow> inv_cap (snd (delete k s))"
  by (auto simp add: inv_cap_def delete_def cache_len_def Mapping.size_delete in_keys_lookup dest: size_pos)

lemma inv_cap_set: "inv_cap s \<Longrightarrow> inv_cap (snd (set_lru k v s))"
  by (auto simp add: inv_cap_def set_lru_def cache_len_def Let_def Mapping.size_delete Mapping.size_update in_keys_lookup split: option.splits dest: size_pos)

lemma inv_cap_step: "0 < maxsize s \<Longrightarrow> inv_cap s \<Longrightarrow> inv_cap (snd (step c s))"
  by (cases c) (simp_all add: inv_cap_get inv_cap_set inv_cap_delete inv_cap_clear)

lemma maxsize_step: "maxsize (snd (step c s)) = maxsize s"
  by (cases c) (simp_all add: maxsize_get maxsize_set maxsize_delete maxsize_clear)

lemma inv_cap_run: "0 < maxsize s \<Longrightarrow> inv_cap s \<Longrightarrow> inv_cap (run cs s)"
  by (induction cs arbitrary: s) (simp_all add: inv_cap_step maxsize_step)

lemma maxsize_run: "maxsize (run cs s) = maxsize s"
  by (induction cs arbitrary: s) (simp_all add: maxsize_step)

lemma inv_cache_init: "inv_cache (LruCache m)"
  by (simp add: inv_cache_def LruCache_def)

lemma inv_cache_get: "inv_cache s \<Longrightarrow> inv_cache (snd (get k s))"
  unfolding inv_cache_def get_def Let_def
  by (auto split: option.splits)

lemma inv_cache_clear: "inv_cache s \<Longrightarrow> inv_cache (clear s)"
  by (simp add: inv_cache_def clear_def)

lemma inv_cache_delete: "inv_cache s \<Longrightarrow> inv_cache (snd (delete k s))"
  by (auto simp add: inv_cache_def delete_def lookup_delete')

lemma inv_cache_set: "inv_cache s \<Longrightarrow> inv_cache (snd (set_lru k v s))"
  unfolding inv_cache_def set_lru_def Let_def
  by (auto simp: Mapping.lookup_update' lookup_delete' less_Suc_eq split: option.splits if_splits)

lemma inv_cache_step: "inv_cache s \<Longrightarrow> inv_cache (snd (step c s))"
  by (cases c) (simp_all add: inv_cache_get inv_cache_set inv_cache_delete inv_cache_clear)

lemma inv_cache_run: "inv_cache s \<Longrightarrow> inv_cache (run cs s)"
  by (induction cs arbitrary: s) (simp_all add: inv_cache_step)






lemma inv_cache_root:
  "inv_cache s \<Longrightarrow> Mapping.lookup (cache s) k = Some l \<Longrightarrow> l \<noteq> root s"
  unfolding inv_cache_def by blast



lemma run_append: "run (cs @ cs') s = run cs' (run cs s)"
  by (induction cs arbitrary: s) simp_all




subsection \<open>The ordering, for sequences of calls without delete\<close>

lemma successively_frame:
  "successively P xs \<Longrightarrow> (\<And>a b. a \<in> set (butlast xs) \<Longrightarrow> b \<in> set (tl xs) \<Longrightarrow> P a b \<Longrightarrow> Q a b)
   \<Longrightarrow> successively Q xs"
proof (induction P xs rule: successively.induct)
  case (3 P x y xs)
  have "successively Q (y # xs)"
    using 3 by (auto split: if_splits)
  moreover have "Q x y" using 3 by simp
  ultimately show ?case by simp
qed simp_all

lemma butlast_not_last: "distinct xs \<Longrightarrow> a \<in> set (butlast xs) \<Longrightarrow> a \<noteq> last xs"
  by (induction xs) (auto split: if_splits dest: in_set_butlastD)

lemma in_set_tl: "b \<in> set (tl xs) \<Longrightarrow> b \<in> set xs"
  by (cases xs) auto

lemma tl_not_hd: "distinct xs \<Longrightarrow> b \<in> set (tl xs) \<Longrightarrow> b \<noteq> hd xs"
  by (cases xs) auto

lemma chain_frame:
  assumes "successively (adj h) xs" and "distinct xs"
    and "\<And>a. a \<in> set xs \<Longrightarrow> a \<noteq> last xs \<Longrightarrow> NEXT (h' a) = NEXT (h a)"
    and "\<And>b. b \<in> set xs \<Longrightarrow> b \<noteq> hd xs \<Longrightarrow> PREV (h' b) = PREV (h b)"
  shows "successively (adj h') xs"
proof (rule successively_frame [OF assms(1)])
  fix a b
  assume a: "a \<in> set (butlast xs)" and b: "b \<in> set (tl xs)" and p: "adj h a b"
  have "a \<in> set xs" "a \<noteq> last xs"
    using a assms(2) by (auto dest: in_set_butlastD butlast_not_last)
  moreover have "b \<in> set xs" "b \<noteq> hd xs"
    using b assms(2) by (auto dest: in_set_tl tl_not_hd)
  ultimately show "adj h' a b"
    using p assms(3,4) by (simp add: adj_def)
qed

lemma ring_chain_split:
  "successively (adj h) (r # ns @ [r]) \<longleftrightarrow>
     successively (adj h) (r # ns) \<and> adj h (last (r # ns)) r"
  using successively_append_iff [of "adj h" "r # ns" "[r]"] by simp

lemma ring_chain_last: "successively (adj h) (r # ns @ [r]) \<Longrightarrow> PREV (h r) = last (r # ns)"
  by (simp only: ring_chain_split adj_def)

lemma ring_chain_first: "successively (adj h) (r # ns @ [r]) \<Longrightarrow> NEXT (h r) = hd (ns @ [r])"
  by (cases ns) (simp_all add: adj_def)

lemma chain_append_link:
  assumes c: "successively (adj h) (r # ms @ [r])" and d: "distinct (r # ms)" and l: "l \<notin> set (r # ms)"
    and n: "\<And>a. NEXT (h' a) = (if a = l then r else if a = last (r # ms) then l else NEXT (h a))"
    and p: "\<And>b. PREV (h' b) = (if b = l then last (r # ms) else if b = r then l else PREV (h b))"
  shows "successively (adj h') (r # ms @ [l] @ [r])"
proof -
  have old: "successively (adj h) (r # ms)"
    using c by (simp only: ring_chain_split)
  have "last (r # ms) \<in> set (r # ms)" by (rule last_in_set) simp
  then have ll: "last (r # ms) \<noteq> l" using l by metis
  have rl: "r \<noteq> l" using l by simp
  have seg: "successively (adj h') (r # ms)"
  proof (rule chain_frame [OF old d])
    fix a assume "a \<in> set (r # ms)" "a \<noteq> last (r # ms)"
    then show "NEXT (h' a) = NEXT (h a)" using l n by auto
  next
    fix b assume "b \<in> set (r # ms)" "b \<noteq> hd (r # ms)"
    then show "PREV (h' b) = PREV (h b)" using l p by auto
  qed
  have a1: "adj h' (last (r # ms)) l"
    using ll rl n p by (simp add: adj_def)
  have a2: "adj h' l r"
    using ll rl n p by (simp add: adj_def)
  have "successively (adj h') [l, r]"
    using a2 by simp
  then have "successively (adj h') ((r # ms) @ [l, r])"
    by (intro iffD2 [OF successively_append_iff]) (use seg a1 in simp)
  then show ?thesis by simp
qed

lemma chain_unlink:
  assumes c: "successively (adj h) (r # as @ l # bs @ [r])" and d: "distinct (r # as @ l # bs)"
    and n: "\<And>a. NEXT (h' a) = (if a = last (r # as) then hd (bs @ [r]) else NEXT (h a))"
    and p: "\<And>b. PREV (h' b) = (if b = hd (bs @ [r]) then last (r # as) else PREV (h b))"
  shows "successively (adj h') (r # as @ bs @ [r])"
proof -
  have split: "successively (adj h) ((r # as) @ (l # bs @ [r]))" using c by simp
  have s1: "successively (adj h) (r # as)" and s0: "successively (adj h) (l # bs @ [r])"
    using split successively_append_iff [of "adj h" "r # as" "l # bs @ [r]"] by blast+
  have s2: "successively (adj h) (bs @ [r])"
    using s0 by (cases bs) simp_all
  have la: "last (r # as) \<in> set (r # as)" by (rule last_in_set) simp
  have hb: "hd (bs @ [r]) \<in> set (bs @ [r])" by (rule hd_in_set) simp
  have t1: "successively (adj h') (r # as)"
  proof (rule chain_frame [OF s1])
    show "distinct (r # as)" using d by simp
  next
    fix a assume "a \<in> set (r # as)" "a \<noteq> last (r # as)"
    then show "NEXT (h' a) = NEXT (h a)" using n by simp
  next
    fix b assume b: "b \<in> set (r # as)" "b \<noteq> hd (r # as)"
    then have "b \<in> set as" by simp
    then have "b \<noteq> hd (bs @ [r])" using hb d by auto
    then show "PREV (h' b) = PREV (h b)" using p by simp
  qed
  have t2: "successively (adj h') (bs @ [r])"
  proof (rule chain_frame [OF s2])
    show "distinct (bs @ [r])" using d by simp
  next
    fix a assume "a \<in> set (bs @ [r])" "a \<noteq> last (bs @ [r])"
    then have "a \<in> set bs" by simp
    then have "a \<noteq> last (r # as)" using la d by auto
    then show "NEXT (h' a) = NEXT (h a)" using n by simp
  next
    fix b assume b: "b \<in> set (bs @ [r])" "b \<noteq> hd (bs @ [r])"
    then show "PREV (h' b) = PREV (h b)" using p by simp
  qed
  have t3: "adj h' (last (r # as)) (hd (bs @ [r]))"
    using n p by (simp add: adj_def)
  have "successively (adj h') ((r # as) @ (bs @ [r]))"
    by (rule iffD2 [OF successively_append_iff]) (use t1 t2 t3 in blast)
  then show ?thesis by simp
qed

lemma ring_chain: "ring s ns \<Longrightarrow> successively (adj (heap s)) (root s # ns @ [root s])"
  and ring_distinct: "ring s ns \<Longrightarrow> distinct (root s # ns)"
  and ring_lookup: "ring s ns \<Longrightarrow> Mapping.lookup (cache s) k = Some l \<longleftrightarrow> l \<in> set ns \<and> KEY (heap s l) = k"
  and ring_full: "ring s ns \<Longrightarrow> FULL s \<Longrightarrow> ns \<noteq> []"
  unfolding ring_def by blast+

lemma ring_alloc: "ring s ns \<Longrightarrow> a \<in> set (root s # ns) \<Longrightarrow> a < alloc s"
  unfolding ring_def by blast

lemma ring_size:
  assumes "ring s ns"
  shows "finite (Mapping.keys (cache s))" and "Mapping.size (cache s) = length ns"
proof -
  let ?f = "\<lambda>a. KEY (heap s a)"
  have keys: "Mapping.keys (cache s) = ?f ` set ns"
    using ring_lookup [OF assms] by (auto simp: in_keys_lookup)
  have inj: "inj_on ?f (set ns)"
  proof (rule inj_onI)
    fix a b assume "a \<in> set ns" "b \<in> set ns" "?f a = ?f b"
    then have "Mapping.lookup (cache s) (?f a) = Some a" "Mapping.lookup (cache s) (?f a) = Some b"
      using ring_lookup [OF assms] by auto
    then show "a = b" by simp
  qed
  show "finite (Mapping.keys (cache s))" using keys by simp
  have "card (?f ` set ns) = card (set ns)" by (rule card_image [OF inj])
  also have "\<dots> = length ns" using ring_distinct [OF assms] by (simp add: distinct_card)
  finally show "Mapping.size (cache s) = length ns" by (simp add: Mapping.size_def keys)
qed

lemma ring_init: "ring (LruCache N) []"
  by (simp add: ring_def LruCache_def adj_def)

lemma ring_clear: "ring s ns \<Longrightarrow> ring (clear s) []"
  by (simp add: ring_def clear_def adj_def)

lemma adj_set_RESULT [simp]: "adj (set_RESULT h a v) = adj h"
  by (simp add: adj_def fun_eq_iff)

lemma adj_set_KEY [simp]: "adj (set_KEY h a v) = adj h"
  by (simp add: adj_def fun_eq_iff)

lemma ring_get_miss:
  "ring s ns \<Longrightarrow> Mapping.lookup (cache s) k = None \<Longrightarrow> ring (snd (get k s)) ns"
  by (simp add: get_def ring_def)

lemma ring_set_update:
  assumes "ring s ns" and "Mapping.lookup (cache s) k = Some l"
  shows "ring (snd (set_lru k v s)) ns" and "fst (set_lru k v s) = Inr ()"
    and "FULL (snd (set_lru k v s)) = FULL s"
proof -
  have s': "set_lru k v s = (Inr (), s\<lparr>heap := set_RESULT (heap s) l v\<rparr>)"
    using assms(2) by (simp add: set_lru_def)
  show "ring (snd (set_lru k v s)) ns"
    using assms(1) unfolding s' ring_def by simp
  show "fst (set_lru k v s) = Inr ()" "FULL (snd (set_lru k v s)) = FULL s"
    unfolding s' by simp_all
qed

lemma ring_get_hit:
  assumes r: "ring s (as @ l # bs)" and k: "Mapping.lookup (cache s) k = Some l"
  shows "ring (snd (get k s)) (as @ bs @ [l])"
proof -
  let ?r = "root s" and ?h = "heap s"
  define lp where "lp = PREV (?h l)"
  define ln where "ln = NEXT (?h l)"
  define h2 where "h2 = set_PREV (set_NEXT ?h lp ln) ln lp"
  define lst where "lst = PREV (h2 ?r)"
  define h6 where "h6 = set_NEXT (set_PREV (set_PREV (set_NEXT h2 lst l) ?r l) l lst) l ?r"
  have s': "snd (get k s) = s\<lparr>heap := h6, HITS := HITS s + 1\<rparr>"
    using k by (simp add: get_def Let_def h6_def lst_def h2_def lp_def ln_def)
  have c: "successively (adj ?h) (?r # as @ l # bs @ [?r])"
    using ring_chain [OF r] by simp
  have d: "distinct (?r # as @ l # bs)"
    using ring_distinct [OF r] by simp
  have split: "successively (adj ?h) ((?r # as) @ (l # bs @ [?r]))" using c by simp
  have "adj ?h (last (?r # as)) l"
    using split successively_append_iff [of "adj ?h" "?r # as" "l # bs @ [?r]"] by simp
  then have lp: "lp = last (?r # as)" by (simp add: adj_def lp_def)
  have "successively (adj ?h) (l # bs @ [?r])"
    using split successively_append_iff [of "adj ?h" "?r # as" "l # bs @ [?r]"] by blast
  then have "adj ?h l (hd (bs @ [?r]))" by (cases bs) simp_all
  then have ln: "ln = hd (bs @ [?r])" by (simp add: adj_def ln_def)
  have c2: "successively (adj h2) (?r # (as @ bs) @ [?r])"
    using chain_unlink [OF c d, of h2] by (simp add: h2_def lp ln)
  have lst: "lst = last (?r # as @ bs)"
    unfolding lst_def using ring_chain_last [OF c2] by simp
  have "successively (adj h6) (?r # (as @ bs) @ [l] @ [?r])"
  proof (rule chain_append_link [OF c2])
    show "distinct (?r # as @ bs)" using d by simp
    show "l \<notin> set (?r # as @ bs)" using d by auto
    show "NEXT (h6 a) = (if a = l then ?r else if a = last (?r # as @ bs) then l else NEXT (h2 a))" for a
      by (simp add: h6_def lst)
    show "PREV (h6 b) = (if b = l then last (?r # as @ bs) else if b = ?r then l else PREV (h2 b))" for b
      by (simp add: h6_def lst)
  qed
  moreover have "KEY (h6 a) = KEY (?h a)" for a
    by (simp add: h6_def h2_def)
  ultimately show ?thesis
    using r unfolding s' ring_def by auto
qed

lemma ring_lookup_None:
  "ring s ns \<Longrightarrow> Mapping.lookup (cache s) k = None \<Longrightarrow> a \<in> set ns \<Longrightarrow> KEY (heap s a) \<noteq> k"
  using ring_lookup [of s ns k a] by auto

lemma ring_set_insert:
  assumes r: "ring s ns" and k: "Mapping.lookup (cache s) k = None" and f: "\<not> FULL s"
  shows "ring (snd (set_lru k v s)) (ns @ [alloc s])"
    and "fst (set_lru k v s) = Inr ()"
    and "FULL (snd (set_lru k v s)) \<longleftrightarrow> maxsize s \<le> int (length ns) + 1"
    and "KEY (heap (snd (set_lru k v s)) a) = (if a = alloc s then k else KEY (heap s a))"
    and "cache (snd (set_lru k v s)) = Mapping.update k (alloc s) (cache s)"
proof -
  let ?r = "root s" and ?h = "heap s" and ?l = "alloc s"
  define lst where "lst = PREV (?h ?r)"
  define h3 where "h3 = set_PREV (set_NEXT (?h(?l := \<lparr>PREV = lst, NEXT = ?r, KEY = k, RESULT = v\<rparr>)) lst ?l) ?r ?l"
  define c' where "c' = Mapping.update k ?l (cache s)"
  have sz: "Mapping.size c' = Suc (length ns)"
    using ring_size [OF r] k by (simp add: c'_def Mapping.size_update in_keys_lookup)
  have s': "set_lru k v s = (Inr (), s\<lparr>cache := c', heap := h3, alloc := ?l + 1,
      FULL := maxsize s \<le> int (Suc (length ns))\<rparr>)"
    using k f sz by (simp add: set_lru_def Let_def h3_def lst_def c'_def cache_len_def)
  show "fst (set_lru k v s) = Inr ()"
    and "FULL (snd (set_lru k v s)) \<longleftrightarrow> maxsize s \<le> int (length ns) + 1"
    and "cache (snd (set_lru k v s)) = Mapping.update k (alloc s) (cache s)"
    unfolding s' by (simp_all add: c'_def add.commute)
  show key: "KEY (heap (snd (set_lru k v s)) a) = (if a = alloc s then k else KEY (heap s a))" for a
    unfolding s' by (simp add: h3_def)
  have c: "successively (adj ?h) (?r # ns @ [?r])" by (rule ring_chain [OF r])
  have d: "distinct (?r # ns)" by (rule ring_distinct [OF r])
  have fresh: "?l \<notin> set (?r # ns)" using ring_alloc [OF r, of ?l] by blast
  have lst: "lst = last (?r # ns)"
    unfolding lst_def by (rule ring_chain_last [OF c])
  have "last (?r # ns) \<in> set (?r # ns)" by (rule last_in_set) simp
  then have ll: "lst \<noteq> ?l" using fresh lst by metis
  have rl: "?r \<noteq> ?l" using fresh by simp
  have ch: "successively (adj h3) (?r # ns @ [?l] @ [?r])"
  proof (rule chain_append_link [OF c d fresh])
    show "NEXT (h3 a) = (if a = ?l then ?r else if a = last (?r # ns) then ?l else NEXT (?h a))" for a
      using ll unfolding lst [symmetric] by (simp add: h3_def)
    show "PREV (h3 b) = (if b = ?l then last (?r # ns) else if b = ?r then ?l else PREV (?h b))" for b
      using rl unfolding lst [symmetric] by (simp add: h3_def)
  qed
  have keys: "KEY (h3 a) = (if a = ?l then k else KEY (?h a))" for a
    by (simp add: h3_def)
  have look: "Mapping.lookup c' k' = Some l \<longleftrightarrow> l \<in> set (ns @ [?l]) \<and> KEY (h3 l) = k'" for k' l
    using ring_lookup [OF r, of k' l] ring_lookup_None [OF r k, of l] fresh
    by (auto simp: c'_def keys Mapping.lookup_update')
  have al: "a < ?l + 1" if "a \<in> set (?r # ns @ [?l])" for a
    using that ring_alloc [OF r, of a] by auto
  show "ring (snd (set_lru k v s)) (ns @ [alloc s])"
    unfolding s' ring_def using ch d fresh look al by simp
qed

lemma ring_set_full:
  assumes r: "ring s (n # ns)" and k: "Mapping.lookup (cache s) k = None" and f: "FULL s"
  shows "ring (snd (set_lru k v s)) (ns @ [root s])"
    and "fst (set_lru k v s) = Inr ()"
    and "FULL (snd (set_lru k v s))"
    and "root (snd (set_lru k v s)) = n"
    and "KEY (heap (snd (set_lru k v s)) a) = (if a = n then PyNone else if a = root s then k else KEY (heap s a))"
    and "cache (snd (set_lru k v s)) = Mapping.update k (root s) (Mapping.delete (KEY (heap s n)) (cache s))"
proof -
  let ?r = "root s" and ?h = "heap s"
  define h3 where "h3 = set_RESULT (set_KEY (set_RESULT (set_KEY ?h ?r k) ?r v) n PyNone) n PyNone"
  define c' where "c' = Mapping.update k ?r (Mapping.delete (KEY (?h n)) (cache s))"
  have c: "successively (adj ?h) (?r # (n # ns) @ [?r])" by (rule ring_chain [OF r])
  have d: "distinct (?r # n # ns)" by (rule ring_distinct [OF r])
  have nx: "NEXT (?h ?r) = n" using c by (simp add: adj_def)
  have nr: "n \<noteq> ?r" using d by auto
  have old: "Mapping.lookup (cache s) (KEY (?h n)) = Some n"
    using ring_lookup [OF r, of "KEY (?h n)" n] by simp
  have s': "set_lru k v s = (Inr (), s\<lparr>heap := h3, root := n, cache := c'\<rparr>)"
    using k f nx nr old by (simp add: set_lru_def Let_def h3_def c'_def)
  show "fst (set_lru k v s) = Inr ()" and "FULL (snd (set_lru k v s))"
    and "root (snd (set_lru k v s)) = n"
    and "cache (snd (set_lru k v s)) = Mapping.update k (root s) (Mapping.delete (KEY (heap s n)) (cache s))"
    unfolding s' using f by (simp_all add: c'_def)
  have keys: "KEY (h3 a) = (if a = n then PyNone else if a = ?r then k else KEY (?h a))" for a
    by (simp add: h3_def)
  show "KEY (heap (snd (set_lru k v s)) a) = (if a = n then PyNone else if a = root s then k else KEY (heap s a))"
    unfolding s' by (simp add: keys)
  have a: "adj h3 = adj ?h" by (simp add: h3_def)
  have c1: "successively (adj ?h) (n # ns @ [?r])" and c2: "adj ?h ?r n"
    using c by simp_all
  have "successively (adj ?h) ((n # ns @ [?r]) @ [n])"
    by (rule iffD2 [OF successively_append_iff]) (use c1 c2 in simp)
  then have ch: "successively (adj h3) (n # (ns @ [?r]) @ [n])"
    by (simp add: a)
  have look: "Mapping.lookup c' k' = Some l \<longleftrightarrow> l \<in> set (ns @ [?r]) \<and> KEY (h3 l) = k'" for k' l
    using ring_lookup [OF r, of k' l] ring_lookup [OF r, of k' n] ring_lookup_None [OF r k, of l] d
    by (auto simp: c'_def keys Mapping.lookup_update' lookup_delete')
  have al: "a < alloc s" if "a \<in> set (n # ns @ [?r])" for a
    using that ring_alloc [OF r, of a] by auto
  show "ring (snd (set_lru k v s)) (ns @ [root s])"
    unfolding s' ring_def using ch d look al by simp
qed

lemma get_frame:
  "cache (snd (get k s)) = cache s" "FULL (snd (get k s)) = FULL s" "root (snd (get k s)) = root s"
  "KEY (heap (snd (get k s)) a) = KEY (heap s a)"
  by (simp_all add: get_def Let_def split: option.splits)

lemma set_then_get:
  "fst (set_lru k v s) = Inr () \<Longrightarrow> fst (get k (snd (set_lru k v s))) = v"
  by (auto simp: set_lru_def get_def Let_def Mapping.lookup_update' split: option.splits if_splits)

lemma ring_keys: "ring s ns \<Longrightarrow> Mapping.keys (cache s) = (\<lambda>a. KEY (heap s a)) ` set ns"
  using ring_lookup [of s ns] by (auto simp: in_keys_lookup)

lemma map_if_notin: "l \<notin> set ns \<Longrightarrow> map (\<lambda>x. if x = l then k else f x) ns = map f ns"
  by (induction ns) auto

lemma fill:
  "distinct (map fst kvs) \<Longrightarrow> int (length kvs) \<le> N \<Longrightarrow>
   \<exists>ns. ring (run (map (case_prod Set) kvs) (LruCache N)) ns
     \<and> map (\<lambda>a. KEY (heap (run (map (case_prod Set) kvs) (LruCache N)) a)) ns = map fst kvs
     \<and> (FULL (run (map (case_prod Set) kvs) (LruCache N)) \<longleftrightarrow> kvs \<noteq> [] \<and> N \<le> int (length kvs))"
proof (induction kvs rule: rev_induct)
  case Nil
  show ?case
    using ring_init [of N] by (auto simp: LruCache_def)
next
  case (snoc kv kvs)
  obtain k v where kv: "kv = (k, v)" by (cases kv)
  let ?s = "run (map (case_prod Set) kvs) (LruCache N)"
  let ?s' = "snd (set_lru k v ?s)"
  have m: "maxsize ?s = N" by (simp add: maxsize_run LruCache_def)
  from snoc obtain ns where r: "ring ?s ns"
    and keys: "map (\<lambda>a. KEY (heap ?s a)) ns = map fst kvs"
    and full: "FULL ?s \<longleftrightarrow> kvs \<noteq> [] \<and> N \<le> int (length kvs)"
    by auto
  have nf: "\<not> FULL ?s" using full snoc.prems by simp
  have "k \<notin> set (map fst kvs)" using snoc.prems kv by simp
  then have "k \<notin> (\<lambda>a. KEY (heap ?s a)) ` set ns" using keys by (metis set_map)
  then have nk: "Mapping.lookup (cache ?s) k = None"
    using ring_keys [OF r] in_keys_lookup [of k "cache ?s"] by auto
  have len: "length ns = length kvs" using keys by (metis length_map)
  have fresh: "alloc ?s \<notin> set ns" using ring_alloc [OF r, of "alloc ?s"] by auto
  have run: "run (map (case_prod Set) (kvs @ [kv])) (LruCache N) = ?s'"
    by (simp add: run_append kv)
  have "map (\<lambda>a. KEY (heap ?s' a)) ns = map (\<lambda>a. KEY (heap ?s a)) ns"
    unfolding ring_set_insert(4) [OF r nk nf] by (rule map_if_notin [OF fresh])
  then have "map (\<lambda>a. KEY (heap ?s' a)) (ns @ [alloc ?s]) = map fst (kvs @ [kv])"
    using keys by (simp add: ring_set_insert(4) [OF r nk nf] kv)
  moreover have "FULL ?s' \<longleftrightarrow> kvs @ [kv] \<noteq> [] \<and> N \<le> int (length (kvs @ [kv]))"
    by (simp add: ring_set_insert(3) [OF r nk nf] m len add.commute)
  ultimately show ?case
    unfolding run using ring_set_insert(1) [OF r nk nf, of v] by blast
qed

text \<open>
  Without \<open>delete\<close>, every call keeps the ordering and the key map in step and returns
  normally.
\<close>

lemma ring_step:
  assumes r: "ring s ns" and nd: "\<forall>k. c \<noteq> Delete k"
  shows "\<exists>ns'. ring (snd (step c s)) ns' \<and> (\<exists>x. fst (step c s) = Inr x)"
proof (cases c)
  case (Get k)
  show ?thesis
  proof (cases "Mapping.lookup (cache s) k")
    case None
    then show ?thesis
      using ring_get_miss [OF r None] by (auto simp: Get)
  next
    case (Some l)
    then have "l \<in> set ns" using ring_lookup [OF r] by simp
    then obtain as bs where ns: "ns = as @ l # bs" by (auto dest: split_list)
    show ?thesis
      using ring_get_hit [of s as l bs, OF _ Some] r by (auto simp: ns Get)
  qed
next
  case (Set k v)
  show ?thesis
  proof (cases "Mapping.lookup (cache s) k")
    case (Some l)
    show ?thesis
      using ring_set_update(1,2) [OF r Some, of v] by (auto simp: Set)
  next
    case None
    show ?thesis
    proof (cases "FULL s")
      case True
      then obtain n ns' where ns: "ns = n # ns'"
        using ring_full [OF r] by (cases ns) auto
      show ?thesis
        using ring_set_full(1,2) [of s n ns', OF _ None True, of v] r by (auto simp: Set ns)
    next
      case False
      show ?thesis
        using ring_set_insert(1,2) [OF r None False, of v] by (auto simp: Set)
    qed
  qed
next
  case (Delete k)
  then show ?thesis using nd by simp
next
  case Clear
  then show ?thesis
    using ring_clear [OF r] by auto
qed

lemma ring_run:
  "\<forall>c\<in>set cs. \<forall>k. c \<noteq> Delete k \<Longrightarrow> \<exists>ns. ring (run cs (LruCache N)) ns"
proof (induction cs rule: rev_induct)
  case Nil
  show ?case using ring_init [of N] by auto
next
  case (snoc c cs)
  then obtain ns where r: "ring (run cs (LruCache N)) ns" by auto
  have "\<forall>k. c \<noteq> Delete k" using snoc.prems by simp
  from ring_step [OF r this] show ?case by (auto simp: run_append)
qed

lemma one_entry_step:
  assumes r: "ring s ns" and m: "maxsize s = 0"
    and one: "if FULL s then length ns = 1 else ns = []"
    and nd: "\<forall>k. c \<noteq> Delete k"
  shows "\<exists>ns'. ring (snd (step c s)) ns'
           \<and> (if FULL (snd (step c s)) then length ns' = 1 else ns' = [])
           \<and> (\<exists>x. fst (step c s) = Inr x)"
proof (cases c)
  case (Get k)
  show ?thesis
  proof (cases "Mapping.lookup (cache s) k")
    case None
    then show ?thesis
      using ring_get_miss [OF r None] one by (auto simp: Get get_frame)
  next
    case (Some l)
    then have "l \<in> set ns" using ring_lookup [OF r] by simp
    then have ns: "ns = [l]" and f: "FULL s"
      using one by (cases ns; auto split: if_splits)+
    have "ring (snd (get k s)) [l]"
      using ring_get_hit [of s "[]" l "[]", OF _ Some] r by (simp add: ns)
    then show ?thesis using f by (auto simp: Get get_frame)
  qed
next
  case (Set k v)
  show ?thesis
  proof (cases "Mapping.lookup (cache s) k")
    case (Some l)
    show ?thesis
      using ring_set_update [OF r Some, of v] one by (auto simp: Set)
  next
    case None
    show ?thesis
    proof (cases "FULL s")
      case True
      then obtain n where ns: "ns = [n]" using one by (cases ns) auto
      have r': "ring s (n # [])" using r ns by simp
      show ?thesis
        using ring_set_full(1-3) [OF r' None True, of v] by (auto simp: Set)
    next
      case False
      then have ns: "ns = []" using one by simp
      show ?thesis
        using ring_set_insert(1-3) [OF r None False, of v] m by (auto simp: Set ns)
    qed
  qed
next
  case (Delete k)
  then show ?thesis using nd by simp
next
  case Clear
  then show ?thesis
    using ring_clear [OF r] by (auto simp: clear_def)
qed

lemma one_entry_run:
  assumes "\<forall>c\<in>set cs. \<forall>k. c \<noteq> Delete k"
  shows "\<exists>ns. ring (run cs (LruCache 0)) ns
           \<and> (if FULL (run cs (LruCache 0)) then length ns = 1 else ns = [])"
  using assms
proof (induction cs rule: rev_induct)
  case Nil
  show ?case using ring_init [of 0] by (auto simp: LruCache_def)
next
  case (snoc c cs)
  then obtain ns where r: "ring (run cs (LruCache 0)) ns"
    and one: "if FULL (run cs (LruCache 0)) then length ns = 1 else ns = []"
    by auto
  have m: "maxsize (run cs (LruCache 0)) = 0" by (simp add: maxsize_run LruCache_def)
  have nd: "\<forall>k. c \<noteq> Delete k" using snoc.prems by simp
  show ?case
    using one_entry_step [OF r m one nd] by (auto simp: run_append)
qed

subsection \<open>The ordering, for every sequence of calls\<close>

lemma lru_order_chain: "lru_order s ns \<Longrightarrow> successively (adj (heap s)) (root s # ns @ [root s])"
  and lru_order_distinct: "lru_order s ns \<Longrightarrow> distinct (root s # ns)"
  and lru_order_lookup:
    "lru_order s ns \<Longrightarrow> Mapping.lookup (cache s) k = Some l \<Longrightarrow> l \<in> set ns \<and> KEY (heap s l) = k"
  unfolding lru_order_def by blast+

lemma lru_order_alloc: "lru_order s ns \<Longrightarrow> a \<in> set (root s # ns) \<Longrightarrow> a < alloc s"
  unfolding lru_order_def by blast

lemma ring_lru_order: "ring s ns \<Longrightarrow> lru_order s ns"
  unfolding ring_def lru_order_def by blast

lemma chain_unique:
  "successively (adj h) (p # xs @ [r]) \<Longrightarrow> successively (adj h) (p # ys @ [r])
   \<Longrightarrow> r \<notin> set xs \<Longrightarrow> r \<notin> set ys \<Longrightarrow> xs = ys"
proof (induction xs arbitrary: p ys)
  case Nil
  then show ?case by (cases ys) (auto simp: adj_def)
next
  case (Cons x xs)
  then show ?case by (cases ys) (auto simp: adj_def)
qed

lemma lru_order_unique: "lru_order s ns \<Longrightarrow> lru_order s ns' \<Longrightarrow> ns = ns'"
  using chain_unique [of "heap s" "root s" ns "root s" ns']
  by (auto simp: lru_order_def)

lemma lru_order_init: "lru_order (LruCache N) []"
  by (simp add: lru_order_def LruCache_def adj_def)

lemma lru_order_clear: "lru_order s ns \<Longrightarrow> lru_order (clear s) []"
  by (simp add: lru_order_def clear_def adj_def)

lemma lru_order_delete: "lru_order s ns \<Longrightarrow> lru_order (snd (delete k s)) ns"
  by (auto simp: lru_order_def delete_def lookup_delete' split: if_splits)

lemma lru_order_get_miss:
  "lru_order s ns \<Longrightarrow> Mapping.lookup (cache s) k = None \<Longrightarrow> lru_order (snd (get k s)) ns"
  by (simp add: get_def lru_order_def)

lemma lru_order_set_update:
  assumes "lru_order s ns" and "Mapping.lookup (cache s) k = Some l"
  shows "lru_order (snd (set_lru k v s)) ns"
proof -
  have s': "set_lru k v s = (Inr (), s\<lparr>heap := set_RESULT (heap s) l v\<rparr>)"
    using assms(2) by (simp add: set_lru_def)
  show ?thesis
    using assms(1) unfolding s' lru_order_def by simp
qed

lemma lru_order_get_hit:
  assumes r: "lru_order s (as @ l # bs)" and k: "Mapping.lookup (cache s) k = Some l"
  shows "lru_order (snd (get k s)) (as @ bs @ [l])"
proof -
  let ?r = "root s" and ?h = "heap s"
  define lp where "lp = PREV (?h l)"
  define ln where "ln = NEXT (?h l)"
  define h2 where "h2 = set_PREV (set_NEXT ?h lp ln) ln lp"
  define lst where "lst = PREV (h2 ?r)"
  define h6 where "h6 = set_NEXT (set_PREV (set_PREV (set_NEXT h2 lst l) ?r l) l lst) l ?r"
  have s': "snd (get k s) = s\<lparr>heap := h6, HITS := HITS s + 1\<rparr>"
    using k by (simp add: get_def Let_def h6_def lst_def h2_def lp_def ln_def)
  have c: "successively (adj ?h) (?r # as @ l # bs @ [?r])"
    using lru_order_chain [OF r] by simp
  have d: "distinct (?r # as @ l # bs)"
    using lru_order_distinct [OF r] by simp
  have split: "successively (adj ?h) ((?r # as) @ (l # bs @ [?r]))" using c by simp
  have "adj ?h (last (?r # as)) l"
    using split successively_append_iff [of "adj ?h" "?r # as" "l # bs @ [?r]"] by simp
  then have lp: "lp = last (?r # as)" by (simp add: adj_def lp_def)
  have "successively (adj ?h) (l # bs @ [?r])"
    using split successively_append_iff [of "adj ?h" "?r # as" "l # bs @ [?r]"] by blast
  then have "adj ?h l (hd (bs @ [?r]))" by (cases bs) simp_all
  then have ln: "ln = hd (bs @ [?r])" by (simp add: adj_def ln_def)
  have c2: "successively (adj h2) (?r # (as @ bs) @ [?r])"
    using chain_unlink [OF c d, of h2] by (simp add: h2_def lp ln)
  have lst: "lst = last (?r # as @ bs)"
    unfolding lst_def using ring_chain_last [OF c2] by simp
  have "successively (adj h6) (?r # (as @ bs) @ [l] @ [?r])"
  proof (rule chain_append_link [OF c2])
    show "distinct (?r # as @ bs)" using d by simp
    show "l \<notin> set (?r # as @ bs)" using d by auto
    show "NEXT (h6 a) = (if a = l then ?r else if a = last (?r # as @ bs) then l else NEXT (h2 a))" for a
      by (simp add: h6_def lst)
    show "PREV (h6 b) = (if b = l then last (?r # as @ bs) else if b = ?r then l else PREV (h2 b))" for b
      by (simp add: h6_def lst)
  qed
  moreover have "KEY (h6 a) = KEY (?h a)" for a
    by (simp add: h6_def h2_def)
  ultimately show ?thesis
    using r unfolding s' lru_order_def by auto
qed

lemma lru_order_set_insert:
  assumes r: "lru_order s ns" and k: "Mapping.lookup (cache s) k = None" and f: "\<not> FULL s"
  shows "lru_order (snd (set_lru k v s)) (ns @ [alloc s])"
proof -
  let ?r = "root s" and ?h = "heap s" and ?l = "alloc s"
  define lst where "lst = PREV (?h ?r)"
  define h3 where "h3 = set_PREV (set_NEXT (?h(?l := \<lparr>PREV = lst, NEXT = ?r, KEY = k, RESULT = v\<rparr>)) lst ?l) ?r ?l"
  define c' where "c' = Mapping.update k ?l (cache s)"
  obtain b where s': "snd (set_lru k v s) = s\<lparr>cache := c', heap := h3, alloc := ?l + 1, FULL := b\<rparr>"
    using k f by (simp add: set_lru_def Let_def h3_def lst_def c'_def)
  have c: "successively (adj ?h) (?r # ns @ [?r])" by (rule lru_order_chain [OF r])
  have d: "distinct (?r # ns)" by (rule lru_order_distinct [OF r])
  have fresh: "?l \<notin> set (?r # ns)" using lru_order_alloc [OF r, of ?l] by blast
  have lst: "lst = last (?r # ns)"
    unfolding lst_def by (rule ring_chain_last [OF c])
  have "last (?r # ns) \<in> set (?r # ns)" by (rule last_in_set) simp
  then have ll: "lst \<noteq> ?l" using fresh lst by metis
  have rl: "?r \<noteq> ?l" using fresh by simp
  have ch: "successively (adj h3) (?r # ns @ [?l] @ [?r])"
  proof (rule chain_append_link [OF c d fresh])
    show "NEXT (h3 a) = (if a = ?l then ?r else if a = last (?r # ns) then ?l else NEXT (?h a))" for a
      using ll unfolding lst [symmetric] by (simp add: h3_def)
    show "PREV (h3 b) = (if b = ?l then last (?r # ns) else if b = ?r then ?l else PREV (?h b))" for b
      using rl unfolding lst [symmetric] by (simp add: h3_def)
  qed
  have keys: "KEY (h3 a) = (if a = ?l then k else KEY (?h a))" for a
    by (simp add: h3_def)
  have look: "l \<in> set (ns @ [?l]) \<and> KEY (h3 l) = k'" if "Mapping.lookup c' k' = Some l" for k' l
    using that lru_order_lookup [OF r, of k' l] fresh
    by (auto simp: c'_def keys Mapping.lookup_update' split: if_splits)
  have al: "a < ?l + 1" if "a \<in> set (?r # ns @ [?l])" for a
    using that lru_order_alloc [OF r, of a] by auto
  show ?thesis
    unfolding s' lru_order_def using ch d fresh look al by simp
qed

lemma lru_order_set_full:
  assumes r: "lru_order s ns" and k: "Mapping.lookup (cache s) k = None" and f: "FULL s"
  shows "lru_order (snd (set_lru k v s)) (tl ns @ (if ns = [] then [] else [root s]))"
proof (cases ns)
  case Nil
  let ?r = "root s" and ?h = "heap s"
  define h3 where "h3 = set_RESULT (set_KEY (set_RESULT (set_KEY ?h ?r k) ?r v) ?r PyNone) ?r PyNone"
  have c: "successively (adj ?h) [?r, ?r]" using lru_order_chain [OF r] Nil by simp
  then have nx: "NEXT (?h ?r) = ?r" by (simp add: adj_def)
  have s': "snd (set_lru k v s) = s\<lparr>heap := h3, root := ?r\<rparr>"
    using k f nx by (simp add: set_lru_def Let_def h3_def)
  have a: "adj h3 = adj ?h" by (simp add: h3_def)
  have "\<And>k l. Mapping.lookup (cache s) k \<noteq> Some l"
    using lru_order_lookup [OF r] Nil by auto
  then show ?thesis
    using r Nil unfolding s' lru_order_def by (simp add: a)
next
  case (Cons n ns')
  let ?r = "root s" and ?h = "heap s"
  define h3 where "h3 = set_RESULT (set_KEY (set_RESULT (set_KEY ?h ?r k) ?r v) n PyNone) n PyNone"
  define c' where "c' = (if Mapping.lookup (cache s) (KEY (?h n)) = None then cache s
      else Mapping.update k ?r (Mapping.delete (KEY (?h n)) (cache s)))"
  have c: "successively (adj ?h) (?r # (n # ns') @ [?r])"
    using lru_order_chain [OF r] Cons by simp
  have d: "distinct (?r # n # ns')" using lru_order_distinct [OF r] Cons by simp
  have nx: "NEXT (?h ?r) = n" using c by (simp add: adj_def)
  have nr: "n \<noteq> ?r" using d by auto
  have s': "snd (set_lru k v s) = s\<lparr>heap := h3, root := n, cache := c'\<rparr>"
    using k f nx nr by (simp add: set_lru_def Let_def h3_def c'_def)
  have keys: "KEY (h3 a) = (if a = n then PyNone else if a = ?r then k else KEY (?h a))" for a
    by (simp add: h3_def)
  have a: "adj h3 = adj ?h" by (simp add: h3_def)
  have c1: "successively (adj ?h) (n # ns' @ [?r])" and c2: "adj ?h ?r n"
    using c by simp_all
  have "successively (adj ?h) ((n # ns' @ [?r]) @ [n])"
    by (rule iffD2 [OF successively_append_iff]) (use c1 c2 in simp)
  then have ch: "successively (adj h3) (n # (ns' @ [?r]) @ [n])"
    by (simp add: a)
  have look: "l \<in> set (ns' @ [?r]) \<and> KEY (h3 l) = k'" if "Mapping.lookup c' k' = Some l" for k' l
    using that lru_order_lookup [OF r, of k' l] lru_order_lookup [OF r, of "KEY (?h n)" l] d Cons
    by (auto simp: c'_def keys Mapping.lookup_update' lookup_delete' split: if_splits)
  have al: "a < alloc s" if "a \<in> set (n # ns' @ [?r])" for a
    using that lru_order_alloc [OF r, of a] Cons by auto
  show ?thesis
    unfolding s' lru_order_def using ch d look al Cons by simp
qed

lemma lru_order_step: "lru_order s ns \<Longrightarrow> \<exists>ns'. lru_order (snd (step c s)) ns'"
proof (cases c)
  case (Get k)
  assume r: "lru_order s ns"
  show ?thesis
  proof (cases "Mapping.lookup (cache s) k")
    case None
    then show ?thesis
      using lru_order_get_miss [OF r None] by (auto simp: Get)
  next
    case (Some l)
    then have "l \<in> set ns" using lru_order_lookup [OF r] by simp
    then obtain as bs where ns: "ns = as @ l # bs" by (auto dest: split_list)
    show ?thesis
      using lru_order_get_hit [of s as l bs, OF _ Some] r by (auto simp: ns Get)
  qed
next
  case (Set k v)
  assume r: "lru_order s ns"
  show ?thesis
  proof (cases "Mapping.lookup (cache s) k")
    case (Some l)
    show ?thesis
      using lru_order_set_update [OF r Some, of v] by (auto simp: Set)
  next
    case None
    show ?thesis
      using lru_order_set_full [OF r None, of v] lru_order_set_insert [OF r None, of v]
      by (cases "FULL s") (auto simp: Set)
  qed
next
  case (Delete k)
  assume "lru_order s ns"
  then show ?thesis
    using lru_order_delete [of s ns k] by (auto simp: Delete)
next
  case Clear
  assume "lru_order s ns"
  then show ?thesis
    using lru_order_clear [of s ns] by (auto simp: Clear)
qed

lemma lru_order_run: "\<exists>ns. lru_order (run cs (LruCache N)) ns"
proof (induction cs rule: rev_induct)
  case Nil
  show ?case using lru_order_init [of N] by auto
next
  case (snoc c cs)
  then obtain ns where "lru_order (run cs (LruCache N)) ns" by auto
  from lru_order_step [OF this] show ?case by (auto simp: run_append)
qed

section \<open>Properties of the coder registry\<close>

text \<open>
  C8. As populated when the module is loaded, the default registry has exactly three
  entries: \<open>None\<close> is mapped to the pair of \<open>bypass\<close> (the identity) with itself,
  \<open>'json'\<close> to the \<open>JsonCoder\<close> instance and \<open>'pickle'\<close> to the pair of the pickle
  module's \<open>dumps\<close> and \<open>loads\<close>; each of these names yields its coder via \<open>get\<close>.
  The name \<open>'serialize'\<close> is not registered: \<open>get\<close> answers \<open>None\<close> for it.
\<close>

theorem registry_builtins:
  "\<exists>r. registry X = Inr r
     \<and> Registry_get PyNone r = Some (CoderTuple (Function bypass) (Function bypass))
     \<and> bypass = (\<lambda>x. x)
     \<and> Registry_get (PyStr ''json'') r = Some (JsonCoder X)
     \<and> Registry_get (PyStr ''pickle'') r
         = Some (CoderTuple (Function (pickle_dumps X)) (Function (pickle_loads X)))
     \<and> Registry_get (PyStr ''serialize'') r = None
     \<and> Mapping.keys (coders r) = {PyNone, PyStr ''json'', PyStr ''pickle''}"
  by (auto simp add: registry_def Registry_register_def Registry_init_def Registry_get_def
      Mapping.lookup_update' bypass_def fun_eq_iff)

text \<open>
  C8, as stated, fails: looking \<open>'serialize'\<close> up in the default registry finds nothing,
  whatever the library functions are (here they are all taken to be the identity).
\<close>

theorem registry_serialize_counterexample:
  "map_sum id (Registry_get (PyStr ''serialize''))
     (registry \<lparr>json_dumps = bypass, json_loads = bypass, str_encode_utf8 = bypass,
                bytes_decode_utf8 = bypass, pickle_dumps = bypass, pickle_loads = bypass\<rparr>)
   = Inr None"
  by (simp add: registry_def Registry_register_def Registry_init_def Registry_get_def
      Mapping.lookup_update')

text \<open>
  C9. \<open>register\<close> raises \<open>TypeError\<close> (the spec's InvalidCoder) exactly when the name is
  unhashable or the raw coder, not being an instance of \<open>Coder\<close>, is a \<open>str\<close> (whatever
  attributes it has), or a tuple whose length is not two, or an object of another kind
  that lacks an \<open>encode\<close> or a \<open>decode\<close> attribute. In every other case it returns
  normally and stores under the name, in place of any earlier entry and leaving the
  other names theirs: the \<open>Coder\<close> instance itself, or the \<open>CoderTuple\<close> of the two items
  of the tuple (whatever they are), or the \<open>CoderTuple\<close> of the object's \<open>encode\<close> and
  \<open>decode\<close> attributes. When the call raises, the registry is unchanged.
\<close>

theorem register_invalid_coder:
  "(fst (Registry_register name raw_coder reg) = Inl TypeError \<longleftrightarrow>
      name = Unhashable
      \<or> (\<not> isinstance_Coder raw_coder
          \<and> (isinstance_str raw_coder
              \<or> (\<exists>items. raw_coder = Tuple_obj items \<and> length items \<noteq> 2)
              \<or> (\<not> isinstance_str raw_coder \<and> \<not> isinstance_tuple raw_coder
                  \<and> \<not> (hasattr_encode raw_coder \<and> hasattr_decode raw_coder)))))
   \<and> (fst (Registry_register name raw_coder reg) \<noteq> Inl TypeError \<longrightarrow>
        (\<exists>n c. name = Hashable n
          \<and> (raw_coder = Coder_obj c
              \<or> (\<exists>x y. raw_coder = Tuple_obj [x, y] \<and> c = CoderTuple x y)
              \<or> (\<exists>e d. raw_coder = Other_obj (Some e) (Some d) \<and> c = CoderTuple e d))
          \<and> Registry_register name raw_coder reg
              = (Inr (), reg\<lparr>coders := Mapping.update n c (coders reg)\<rparr>)
          \<and> Registry_get n (snd (Registry_register name raw_coder reg)) = Some c
          \<and> (\<forall>n'. n' \<noteq> n \<longrightarrow>
                Registry_get n' (snd (Registry_register name raw_coder reg)) = Registry_get n' reg)))
   \<and> (fst (Registry_register name raw_coder reg) = Inl TypeError \<longrightarrow>
        snd (Registry_register name raw_coder reg) = reg)"
proof (cases raw_coder rule: coderize.cases)
  case (1 c)
  then show ?thesis
    by (cases name) (simp_all add: Registry_register_def Registry_get_def)
next
  case (2 s d)
  then show ?thesis
    by (simp add: Registry_register_def)
next
  case (3 items)
  then show ?thesis
    by (cases items rule: CoderTuple_call.cases; cases name)
       (simp_all add: Registry_register_def Registry_get_def)
next
  case (4 e d)
  then show ?thesis
    by (cases name) (simp_all add: Registry_register_def Registry_get_def)
qed (simp_all add: Registry_register_def Registry_get_def)

theorem register_invalid_coder_witness:
  "fst (Registry_register (Hashable PyNone)
          (Other_obj (Some (Function bypass)) (Some (Function (\<lambda>x. PyNone)))) Registry_init)
     \<noteq> Inl TypeError
   \<and> Registry_get PyNone (snd (Registry_register (Hashable PyNone)
          (Other_obj (Some (Function bypass)) (Some (Function (\<lambda>x. PyNone)))) Registry_init))
       = Some (CoderTuple (Function bypass) (Function (\<lambda>x. PyNone)))
   \<and> fst (Registry_register (Hashable PyNone) (Tuple_obj [Function bypass]) Registry_init)
       = Inl TypeError
   \<and> snd (Registry_register (Hashable PyNone) (Tuple_obj [Function bypass]) Registry_init)
       = Registry_init"
  using register_invalid_coder [of "Hashable PyNone"
      "Other_obj (Some (Function bypass)) (Some (Function (\<lambda>x. PyNone)))" Registry_init]
    register_invalid_coder [of "Hashable PyNone" "Tuple_obj [Function bypass]" Registry_init]
  by simp

text \<open>
  C9, as stated, fails in both directions: a \<open>str\<close> that has both an \<open>encode\<close> and a
  \<open>decode\<close> attribute is rejected; a tuple of two objects that are not functions (and
  have neither attribute) is accepted and stored; and a tuple of two functions is
  rejected when the name is unhashable.
\<close>

theorem register_shape_counterexample:
  "hasattr_encode (Str_obj ''json'' (Some (Function bypass)))
   \<and> hasattr_decode (Str_obj ''json'' (Some (Function bypass)))
   \<and> fst (Registry_register (Hashable (PyStr ''x''))
            (Str_obj ''json'' (Some (Function bypass))) Registry_init) = Inl TypeError
   \<and> Registry_register (Hashable (PyStr ''x''))
            (Tuple_obj [Other_obj None None, Other_obj None None]) Registry_init
       = (Inr (), \<lparr>coders = Mapping.update (PyStr ''x'')
                     (CoderTuple (Other_obj None None) (Other_obj None None)) Mapping.empty\<rparr>)
   \<and> fst (Registry_register Unhashable (Tuple_obj [Function bypass, Function bypass])
            Registry_init) = Inl TypeError"
  by (simp add: Registry_register_def Registry_init_def)


section \<open>Properties of the LRU cache\<close>

text \<open>
  C1. On the state after any sequence of calls the engine has exactly one recency
  ordering: the list of the links met from the root along \<open>NEXT\<close>, from the least to
  the most recently used. For a key that has an entry: \<open>get\<close> moves the key's link to
  the most-recently-used end of the ordering (the ordering afterwards is the one before
  with the link taken out and put last, so the link is the one just before the root),
  and changes no key, no value and not the key map; \<open>set\<close> returns normally and
  overwrites the value in the key's link, and leaves the ordering as it was: the root and
  every \<open>PREV\<close> and \<open>NEXT\<close> are unchanged.
\<close>

theorem get_promotes_set_overwrites:
  "let s = run cs (LruCache N) in
     (\<exists>!ns. lru_order s ns)
     \<and> (Mapping.lookup (cache s) k = Some l \<longrightarrow>
       (let s' = snd (get k s) in
          (\<forall>ns. lru_order s ns \<longrightarrow> l \<in> set ns \<and> lru_order s' (remove1 l ns @ [l]))
          \<and> cache s' = cache s
          \<and> (\<forall>a. KEY (heap s' a) = KEY (heap s a) \<and> RESULT (heap s' a) = RESULT (heap s a))
          \<and> Mapping.lookup (cache s') k = Some l \<and> root s' = root s
          \<and> PREV (heap s' (root s')) = l \<and> NEXT (heap s' l) = root s')
       \<and> (let s' = snd (set_lru k v s) in
          fst (set_lru k v s) = Inr ()
          \<and> (\<forall>ns. lru_order s ns \<longrightarrow> lru_order s' ns)
          \<and> cache s' = cache s
          \<and> Mapping.lookup (cache s') k = Some l \<and> RESULT (heap s' l) = v
          \<and> root s' = root s
          \<and> (\<forall>a. PREV (heap s' a) = PREV (heap s a) \<and> NEXT (heap s' a) = NEXT (heap s a))))"
proof -
  define s where "s = run cs (LruCache N)"
  have ex: "\<exists>!ns. lru_order s ns"
    using lru_order_run [of cs N] lru_order_unique [of s] unfolding s_def by blast
  have ic: "inv_cache s"
    unfolding s_def by (rule inv_cache_run [OF inv_cache_init])
  have hit: "(\<forall>ns. lru_order s ns \<longrightarrow> l \<in> set ns \<and> lru_order (snd (get k s)) (remove1 l ns @ [l]))
      \<and> cache (snd (get k s)) = cache s
      \<and> (\<forall>a. KEY (heap (snd (get k s)) a) = KEY (heap s a)
            \<and> RESULT (heap (snd (get k s)) a) = RESULT (heap s a))
      \<and> Mapping.lookup (cache (snd (get k s))) k = Some l \<and> root (snd (get k s)) = root s
      \<and> PREV (heap (snd (get k s)) (root (snd (get k s)))) = l
      \<and> NEXT (heap (snd (get k s)) l) = root (snd (get k s))"
    if k: "Mapping.lookup (cache s) k = Some l"
  proof -
    have mv: "l \<in> set ns \<and> lru_order (snd (get k s)) (remove1 l ns @ [l])" if o: "lru_order s ns" for ns
    proof -
      have m: "l \<in> set ns" using lru_order_lookup [OF o k] by simp
      then obtain as bs where ns: "ns = as @ l # bs" by (auto dest: split_list)
      have "l \<notin> set as" using lru_order_distinct [OF o] by (simp add: ns)
      then have "remove1 l ns = as @ bs" by (simp add: ns remove1_append)
      then show ?thesis
        using lru_order_get_hit [of s as l bs k] o k m by (simp add: ns)
    qed
    have "l \<noteq> root s" by (rule inv_cache_root [OF ic k])
    then show ?thesis
      using mv k by (simp add: get_def Let_def)
  qed
  have upd: "fst (set_lru k v s) = Inr ()
      \<and> (\<forall>ns. lru_order s ns \<longrightarrow> lru_order (snd (set_lru k v s)) ns)
      \<and> cache (snd (set_lru k v s)) = cache s
      \<and> Mapping.lookup (cache (snd (set_lru k v s))) k = Some l
      \<and> RESULT (heap (snd (set_lru k v s)) l) = v
      \<and> root (snd (set_lru k v s)) = root s
      \<and> (\<forall>a. PREV (heap (snd (set_lru k v s)) a) = PREV (heap s a)
            \<and> NEXT (heap (snd (set_lru k v s)) a) = NEXT (heap s a))"
    if k: "Mapping.lookup (cache s) k = Some l"
  proof -
    have "lru_order (snd (set_lru k v s)) ns" if "lru_order s ns" for ns
      by (rule lru_order_set_update [OF that k])
    then show ?thesis
      using k by (simp add: set_lru_def)
  qed
  show ?thesis
    unfolding Let_def s_def [symmetric] using ex hit upd by blast
qed

theorem get_promotes_set_overwrites_witness:
  "(let s = run [Set (PyStr ''a'') (PyInt 1), Set (PyStr ''b'') (PyInt 2)] (LruCache 2);
        g = snd (get (PyStr ''a'') s);
        u = snd (set_lru (PyStr ''a'') (PyInt 3) s)
    in Mapping.lookup (cache s) (PyStr ''a'') = Some 1
       \<and> lru_order s [1, 2] \<and> lru_order g [2, 1] \<and> lru_order u [1, 2]
       \<and> PREV (heap g (root g)) = 1 \<and> NEXT (heap g 1) = root g
       \<and> RESULT (heap u 1) = PyInt 3 \<and> root u = root s)"
proof -
  define s where "s = run [Set (PyStr ''a'') (PyInt 1), Set (PyStr ''b'') (PyInt 2)] (LruCache 2)"
  have h: "Mapping.lookup (cache s) (PyStr ''a'') = Some 1"
    unfolding s_def by code_simp
  have o: "lru_order s [1, 2]"
    unfolding s_def lru_order_def
    by (auto simp: set_lru_def LruCache_def Let_def cache_len_def adj_def
        Mapping.lookup_update' Mapping.size_update split: if_splits)
  have "remove1 (1::nat) [1, 2] @ [1] = [2, 1]" by simp
  then show ?thesis
    using get_promotes_set_overwrites [of "[Set (PyStr ''a'') (PyInt 1), Set (PyStr ''b'') (PyInt 2)]"
        2 "PyStr ''a''" 1 "PyInt 3"] h o
    unfolding s_def [symmetric] Let_def by metis
qed

text \<open>
  C1, as stated, fails: with \<open>maxsize = 2\<close>, after \<open>set(a, 1)\<close>, \<open>set(b, 2)\<close>,
  \<open>set(a, 3)\<close> the link before the root is not the link of \<open>a\<close>, and a following
  \<open>set(c, 4)\<close> evicts \<open>a\<close>, the key set last, and keeps \<open>b\<close>.
\<close>

theorem set_existing_key_counterexample:
  "(let s = run [Set (PyStr ''a'') (PyInt 1), Set (PyStr ''b'') (PyInt 2),
                 Set (PyStr ''a'') (PyInt 3)] (LruCache 2)
    in Mapping.lookup (cache s) (PyStr ''a'') \<noteq> Some (PREV (heap s (root s)))
       \<and> fst (get (PyStr ''a'') (snd (set_lru (PyStr ''c'') (PyInt 4) s))) = SENTINEL
       \<and> fst (get (PyStr ''b'') (snd (set_lru (PyStr ''c'') (PyInt 4) s))) = PyInt 2)"
  by code_simp

text \<open>
  C5. For every positive \<open>N\<close> and every sequence of \<open>set\<close> calls on an engine built with
  \<open>maxsize = N\<close>, after each call \<open>cache_info\<close> reports \<open>maxsize = N\<close> and a current
  size of at most \<open>N\<close>.
\<close>

theorem capacity_invariant:
  assumes "0 < N" and "\<forall>c\<in>set cs. \<exists>k v. c = Set k v" and "n \<le> length cs"
  shows "cache_info (run (take n cs) (LruCache N))
         = (HITS (run (take n cs) (LruCache N)), MISSES (run (take n cs) (LruCache N)), N,
            cache_len (run (take n cs) (LruCache N)))
       \<and> cache_len (run (take n cs) (LruCache N)) \<le> N"
proof -
  have "inv_cap (run (take n cs) (LruCache N))"
    using assms(1) by (intro inv_cap_run inv_cap_init) (simp_all add: LruCache_def)
  then show ?thesis
    by (simp add: inv_cap_def cache_info_def maxsize_run) (simp add: LruCache_def)
qed

theorem capacity_invariant_witness:
  "cache_len (run (take 2 [Set (PyStr ''a'') (PyInt 1), Set (PyStr ''b'') (PyInt 2)]) (LruCache 1)) \<le> 1"
  using capacity_invariant [of 1 "[Set (PyStr ''a'') (PyInt 1), Set (PyStr ''b'') (PyInt 2)]" 2]
  by simp

text \<open>
  C4. On an engine built with \<open>maxsize = 0\<close>, after any sequence of \<open>get\<close>, \<open>set\<close> and
  \<open>clear\<close> calls, \<open>set(k, v)\<close> returns normally, a \<open>get(k)\<close> following it returns
  \<open>v\<close>, and the live entry count is 1: the engine holds one entry.
\<close>

theorem maxsize_zero_one_entry:
  assumes "\<forall>c\<in>set cs. \<forall>k'. c \<noteq> Delete k'"
  shows "let s = run cs (LruCache 0)
         in fst (set_lru k v s) = Inr ()
            \<and> fst (get k (snd (set_lru k v s))) = v
            \<and> cache_len (snd (set_lru k v s)) = 1"
proof -
  let ?cs = "cs @ [Set k v]"
  have nd: "\<forall>c\<in>set ?cs. \<forall>k'. c \<noteq> Delete k'" using assms by simp
  obtain ns where r0: "ring (run cs (LruCache 0)) ns"
    and one0: "if FULL (run cs (LruCache 0)) then length ns = 1 else ns = []"
    using one_entry_run [OF assms] by auto
  have m: "maxsize (run cs (LruCache 0)) = 0" by (simp add: maxsize_run LruCache_def)
  have "\<forall>k'. Set k v \<noteq> Delete k'" by simp
  from one_entry_step [OF r0 m one0 this]
  obtain ns' where r: "ring (snd (set_lru k v (run cs (LruCache 0)))) ns'"
    and one: "if FULL (snd (set_lru k v (run cs (LruCache 0)))) then length ns' = 1 else ns' = []"
    and ok: "fst (set_lru k v (run cs (LruCache 0))) = Inr ()"
    by (auto simp: map_sum_def split: sum.splits)
  have g: "fst (get k (snd (set_lru k v (run cs (LruCache 0))))) = v"
    by (rule set_then_get [OF ok])
  have "Mapping.lookup (cache (snd (set_lru k v (run cs (LruCache 0))))) k \<noteq> None"
    using ok by (auto simp: set_lru_def Let_def Mapping.lookup_update' split: option.splits if_splits)
  then have "ns' \<noteq> []" using ring_lookup [OF r, of k] by auto
  then have "length ns' = 1" using one by (auto split: if_splits)
  then have "cache_len (snd (set_lru k v (run cs (LruCache 0)))) = 1"
    using ring_size(2) [OF r] by (simp add: cache_len_def)
  then show ?thesis using ok g by (simp add: Let_def)
qed

theorem maxsize_zero_one_entry_witness:
  "(let s = run [Set (PyStr ''a'') (PyInt 1), Get (PyStr ''a''), Set (PyStr ''b'') (PyInt 2)]
              (LruCache 0)
    in fst (get (PyStr ''c'') (snd (set_lru (PyStr ''c'') (PyInt 3) s))) = PyInt 3
       \<and> cache_len (snd (set_lru (PyStr ''c'') (PyInt 3) s)) = 1)"
  using maxsize_zero_one_entry
    [of "[Set (PyStr ''a'') (PyInt 1), Get (PyStr ''a''), Set (PyStr ''b'') (PyInt 2)]"
      "PyStr ''c''" "PyInt 3"]
  by (simp add: Let_def)

text \<open>
  C4, as stated, fails: on a fresh engine with \<open>maxsize = 0\<close>, \<open>get(a)\<close> after
  \<open>set(a, 1)\<close> returns 1, not the miss sentinel, and \<open>cache_info\<close> reports size 1.
\<close>

theorem maxsize_zero_counterexample:
  "fst (get (PyStr ''a'') (snd (set_lru (PyStr ''a'') (PyInt 1) (LruCache 0)))) = PyInt 1
   \<and> fst (get (PyStr ''a'') (snd (set_lru (PyStr ''a'') (PyInt 1) (LruCache 0)))) \<noteq> SENTINEL
   \<and> cache_info (snd (set_lru (PyStr ''a'') (PyInt 1) (LruCache 0))) = (0, 0, 0, 1)"
  by code_simp

text \<open>
  C6. For \<open>N \<ge> 2\<close> pairs with distinct keys \<open>k1..kN\<close> set in this order on a fresh
  engine with \<open>maxsize = N\<close>, then \<open>get(k1)\<close>, then \<open>set(k', v')\<close> for a key \<open>k'\<close>
  not among them: the \<open>set\<close> returns normally and evicts \<open>k2\<close>. Before it the keys of
  the key map are \<open>k1..kN\<close>; after it they are these without \<open>k2\<close>, and \<open>k'\<close>; a
  \<open>get(k2)\<close> is a miss and \<open>k1\<close> still has its entry.
\<close>

theorem recency_order:
  assumes len: "2 \<le> length kvs" and dist: "distinct (map fst kvs)" and new: "k' \<notin> fst ` set kvs"
  shows "let s0 = run (map (case_prod Set) kvs) (LruCache (int (length kvs)));
             s1 = snd (get (fst (kvs ! 0)) s0);
             s2 = snd (set_lru k' v' s1)
         in Mapping.keys (cache s1) = fst ` set kvs
            \<and> fst (set_lru k' v' s1) = Inr ()
            \<and> Mapping.keys (cache s2) = insert k' (fst ` set kvs - {fst (kvs ! 1)})
            \<and> fst (get (fst (kvs ! 1)) s2) = SENTINEL
            \<and> Mapping.lookup (cache s2) (fst (kvs ! 0)) \<noteq> None"
proof -
  define s0 where "s0 = run (map (case_prod Set) kvs) (LruCache (int (length kvs)))"
  define s1 where "s1 = snd (get (fst (kvs ! 0)) s0)"
  define s2 where "s2 = snd (set_lru k' v' s1)"
  obtain ns where r0: "ring s0 ns" and keys: "map (\<lambda>a. KEY (heap s0 a)) ns = map fst kvs"
    and full: "FULL s0"
    using fill [OF dist, of "int (length kvs)"] len unfolding s0_def by auto
  have "length ns = length kvs" using keys by (metis length_map)
  then obtain n1 n2 rest where ns: "ns = n1 # n2 # rest"
    using len by (cases ns; cases "tl ns") auto
  obtain kv1 kv2 kvs' where kvs: "kvs = kv1 # kv2 # kvs'"
    using len by (cases kvs; cases "tl kvs") auto
  have k1: "KEY (heap s0 n1) = fst (kvs ! 0)" and k2: "KEY (heap s0 n2) = fst (kvs ! 1)"
    using keys by (simp_all add: ns kvs)
  have ne: "fst (kvs ! 0) \<noteq> fst (kvs ! 1)" using dist by (simp add: kvs)
  have keys0: "Mapping.keys (cache s0) = fst ` set kvs"
    using ring_keys [OF r0] keys by (metis set_map)
  have l1: "Mapping.lookup (cache s0) (fst (kvs ! 0)) = Some n1"
    using ring_lookup [OF r0, of "fst (kvs ! 0)" n1] k1 by (simp add: ns)
  have r1: "ring s1 (n2 # rest @ [n1])"
    using ring_get_hit [of s0 "[]" n1 "n2 # rest", OF _ l1] r0 by (simp add: ns s1_def)
  have c1: "cache s1 = cache s0" and f1: "FULL s1" and h1: "KEY (heap s1 a) = KEY (heap s0 a)" for a
    using full by (simp_all add: s1_def get_frame)
  have nk: "Mapping.lookup (cache s1) k' = None"
    using new keys0 in_keys_lookup [of k' "cache s0"] by (simp add: c1)
  have c2: "cache s2 = Mapping.update k' (root s1) (Mapping.delete (fst (kvs ! 1)) (cache s0))"
    unfolding s2_def ring_set_full(6) [OF r1 nk f1] by (simp add: h1 k2 c1)
  have kn: "k' \<noteq> fst (kvs ! 1)" "k' \<noteq> fst (kvs ! 0)" using new by (auto simp: kvs)
  have "Mapping.keys (cache s1) = fst ` set kvs" by (simp add: c1 keys0)
  moreover have "fst (set_lru k' v' s1) = Inr ()" by (rule ring_set_full(2) [OF r1 nk f1])
  moreover have "Mapping.keys (cache s2) = insert k' (fst ` set kvs - {fst (kvs ! 1)})"
    by (simp add: c2 keys0)
  moreover have "fst (get (fst (kvs ! 1)) s2) = SENTINEL"
    using kn by (simp add: get_def c2)
  moreover have "Mapping.lookup (cache s2) (fst (kvs ! 0)) \<noteq> None"
    using kn ne l1 by (simp add: c2)
  ultimately show ?thesis
    unfolding Let_def s0_def [symmetric] s1_def [symmetric] s2_def [symmetric] by blast
qed

theorem recency_order_witness:
  "(let s0 = run [Set (PyStr ''a'') (PyInt 1), Set (PyStr ''b'') (PyInt 2), Set (PyStr ''c'') (PyInt 3)]
               (LruCache 3);
        s1 = snd (get (PyStr ''a'') s0);
        s2 = snd (set_lru (PyStr ''d'') (PyInt 4) s1)
    in Mapping.keys (cache s2) = {PyStr ''d'', PyStr ''a'', PyStr ''c''}
       \<and> fst (get (PyStr ''b'') s2) = SENTINEL)"
  using recency_order [of "[(PyStr ''a'', PyInt 1), (PyStr ''b'', PyInt 2), (PyStr ''c'', PyInt 3)]"
      "PyStr ''d''" "PyInt 4"]
  by (simp add: Let_def insert_commute)



text \<open>
  C2. \<open>delete(key)\<close> on a key that has an entry returns normally and removes the key from
  the key map, the other keys keeping their entries, so that a \<open>get\<close> of the key right
  after is a miss; on a key that has no entry it raises \<open>KeyError\<close> and leaves the engine
  as it was. In both cases the hit and miss counters are unchanged.
\<close>

theorem delete_map_entry:
  "(Mapping.lookup (cache s) k \<noteq> None \<longrightarrow>
      fst (delete k s) = Inr ()
      \<and> Mapping.lookup (cache (snd (delete k s))) k = None
      \<and> (\<forall>k'. k' \<noteq> k \<longrightarrow>
            Mapping.lookup (cache (snd (delete k s))) k' = Mapping.lookup (cache s) k')
      \<and> fst (get k (snd (delete k s))) = SENTINEL)
   \<and> (Mapping.lookup (cache s) k = None \<longrightarrow> delete k s = (Inl (KeyError k), s))
   \<and> HITS (snd (delete k s)) = HITS s
   \<and> MISSES (snd (delete k s)) = MISSES s"
  by (simp add: delete_def get_def)

theorem delete_map_entry_witness:
  "fst (delete (PyStr ''a'') (snd (set_lru (PyStr ''a'') (PyInt 1) (LruCache 2)))) = Inr ()
   \<and> fst (get (PyStr ''a'')
        (snd (delete (PyStr ''a'') (snd (set_lru (PyStr ''a'') (PyInt 1) (LruCache 2)))))) = SENTINEL
   \<and> fst (delete (PyStr ''b'') (LruCache 2)) = Inl (KeyError (PyStr ''b''))
   \<and> snd (delete (PyStr ''b'') (LruCache 2)) = LruCache 2"
  using delete_map_entry [of "snd (set_lru (PyStr ''a'') (PyInt 1) (LruCache 2))" "PyStr ''a''"]
    delete_map_entry [of "LruCache 2" "PyStr ''b''"]
  by (simp add: set_lru_def LruCache_def Let_def)

text \<open>
  C2, as stated, fails: \<open>delete\<close> of a key that was never set, on a fresh engine, raises
  \<open>KeyError\<close>.
\<close>

theorem delete_absent_counterexample:
  "delete (PyStr ''a'') (LruCache 2) = (Inl (KeyError (PyStr ''a'')), LruCache 2)"
  by (simp add: delete_def LruCache_def)

text \<open>
  C3. The code at the failing input: with \<open>maxsize = 2\<close>, after \<open>set(a, 1)\<close> and
  \<open>delete(a)\<close> the key map has no entry for \<open>a\<close> while the link of \<open>a\<close> still follows
  the root in the ordering; and after \<open>set(a, 1)\<close>, \<open>set(b, 2)\<close>, \<open>delete(a)\<close>,
  \<open>set(c, 3)\<close> the call \<open>set(d, 4)\<close> raises \<open>KeyError\<close> for \<open>a\<close>.
\<close>

theorem delete_leaves_link_in_ring:
  "(let s = run [Set (PyStr ''a'') (PyInt 1), Delete (PyStr ''a'')] (LruCache 2)
    in Mapping.lookup (cache s) (PyStr ''a'') = None
       \<and> NEXT (heap s (root s)) \<noteq> root s
       \<and> KEY (heap s (NEXT (heap s (root s)))) = PyStr ''a'')
   \<and> fst (step (Set (PyStr ''d'') (PyInt 4))
        (run [Set (PyStr ''a'') (PyInt 1), Set (PyStr ''b'') (PyInt 2), Delete (PyStr ''a''),
              Set (PyStr ''c'') (PyInt 3)] (LruCache 2)))
      = Inl (KeyError (PyStr ''a''))"
  by code_simp

end
